theory Spec2Isabelle
  imports Main "HOL-Library.Char_ord" "HOL-Library.List_Lexorder" "HOL-Library.Multiset"
begin

section \<open>JavaScript values and the string operations used by server.js\<close>

text \<open>
  Strings are lists of 8-bit code units. Every registration number the server writes is
  ASCII, where JavaScript's UTF-16 code units, SQLite's UTF-8 bytes and \<^typ>\<open>char\<close>
  coincide, and where the order of \<^typ>\<open>char\<close> is the order of SQLite's BINARY collation.

  A request body is an object, and a value of it is any JSON value. Numbers are kept as
  integers: the handler only tests a number for being zero. Arrays and objects are one
  opaque constructor: the handler only tests them for truthiness and calls \<open>.trim()\<close> on
  them, which throws.
\<close>

datatype jsval = JUndefined | JNull | JBool bool | JNum int | JStr string | JObject

type_synonym jsobject = "string \<Rightarrow> jsval"
  \<comment> \<open>property lookup; \<open>JUndefined\<close> for a property the object does not have\<close>

text \<open>\<open>!v\<close> is \<open>\<not> truthy v\<close> (ToBoolean).\<close>

fun truthy :: "jsval \<Rightarrow> bool" where
  "truthy JUndefined = False"
| "truthy JNull = False"
| "truthy (JBool b) = b"
| "truthy (JNum n) = (n \<noteq> 0)"
| "truthy (JStr s) = (s \<noteq> [])"
| "truthy JObject = True"

text \<open>
  White space and line terminators of ECMAScript that fit in one 8-bit code unit:
  TAB, LF, VT, FF, CR, SPACE and NBSP.
\<close>

definition isWhiteSpace :: "char \<Rightarrow> bool" where
  "isWhiteSpace c = (of_char c \<in> {9, 10, 11, 12, 13, 32, 160 :: nat})"

definition trim :: "string \<Rightarrow> string" where
  "trim s = rev (dropWhile isWhiteSpace (rev (dropWhile isWhiteSpace s)))"

definition digit_char :: "nat \<Rightarrow> char" where
  "digit_char d = char_of (48 + d)"

fun decimal :: "nat \<Rightarrow> string" where
  "decimal n = (if n < 10 then [digit_char n] else decimal (n div 10) @ [digit_char (n mod 10)])"

declare decimal.simps [simp del]

text \<open>\<open>String(n)\<close> and the template literal \<open>`${n}`\<close> for an integral number \<open>n\<close>.\<close>

definition String_int :: "int \<Rightarrow> string" where
  "String_int i = (if i < 0 then CHR ''-'' # decimal (nat (- i)) else decimal (nat i))"

text \<open>\<open>s.padStart(n, c)\<close> with a pad string of one character.\<close>

definition padStart :: "string \<Rightarrow> nat \<Rightarrow> char \<Rightarrow> string" where
  "padStart s n c = replicate (n - length s) c @ s"

text \<open>\<open>s.slice(-k)\<close>: the last \<open>k\<close> code units, the whole string when it is shorter.\<close>

definition slice_last :: "string \<Rightarrow> nat \<Rightarrow> string" where
  "slice_last s k = drop (length s - k) s"

definition is_digit :: "char \<Rightarrow> bool" where
  "is_digit c = (CHR ''0'' \<le> c \<and> c \<le> CHR ''9'')"

definition digit_val :: "char \<Rightarrow> nat" where
  "digit_val c = of_char c - 48"

definition digits_val :: "string \<Rightarrow> nat" where
  "digits_val ds = foldl (\<lambda>a c. 10 * a + digit_val c) 0 ds"

text \<open>
  \<open>parseInt(s, 10)\<close>: leading white space is skipped, one sign is read, then the longest
  run of decimal digits; the rest of the string is ignored. \<open>None\<close> is \<open>NaN\<close> (no digit
  was found).
\<close>

definition parseInt10 :: "string \<Rightarrow> int option" where
  "parseInt10 s =
     (let t = dropWhile isWhiteSpace s;
          neg = (t \<noteq> [] \<and> hd t = CHR ''-'');
          u = (if t \<noteq> [] \<and> (hd t = CHR ''-'' \<or> hd t = CHR ''+'') then tl t else t);
          ds = takeWhile is_digit u
      in if ds = [] then None
         else Some (if neg then - int (digits_val ds) else int (digits_val ds)))"

text \<open>\<open>xs.join(sep)\<close> on an array of strings.\<close>

fun join :: "string list \<Rightarrow> string \<Rightarrow> string" where
  "join [] sep = []"
| "join [x] sep = x"
| "join (x # y # ys) sep = x @ sep @ join (y # ys) sep"

section \<open>The students table\<close>

text \<open>
  One row of \<open>students\<close>. \<open>row_id\<close> is the column \<open>id\<close>. All columns are \<open>NOT NULL\<close>.
\<close>

record student =
  row_id :: nat
  reg_no :: string
  name :: string
  email :: string
  department :: string
  address :: string
  division :: string

text \<open>
  The database: the rows in insertion order and the counter that \<open>AUTOINCREMENT\<close> keeps
  in \<open>sqlite_sequence\<close> (the largest id ever used).
\<close>

record db =
  rows :: "student list"
  seq :: nat

datatype js_error = SqliteError string | TypeError string

text \<open>
  SQLite's \<open>LIKE\<close>: \<open>%\<close> matches any run of characters, \<open>_\<close> matches one character, any
  other character matches itself, ASCII letters without regard to case (the source never
  sets \<open>case_sensitive_like\<close>).
\<close>

definition ascii_lower :: "char \<Rightarrow> char" where
  "ascii_lower c = (if CHR ''A'' \<le> c \<and> c \<le> CHR ''Z'' then char_of (of_char c + (32::nat)) else c)"

fun like :: "string \<Rightarrow> string \<Rightarrow> bool" where
  "like [] s = (s = [])"
| "like (p # ps) [] = (p = CHR ''%'' \<and> like ps [])"
| "like (p # ps) (c # cs) =
     (if p = CHR ''%'' then like ps (c # cs) \<or> like (p # ps) cs
      else if p = CHR ''_'' then like ps cs
      else ascii_lower p = ascii_lower c \<and> like ps cs)"

text \<open>
  \<open>SELECT reg_no FROM students WHERE reg_no LIKE ? ORDER BY reg_no DESC LIMIT 1\<close>:
  the result of \<open>dbGet\<close> is the first row of the ordered result, or \<open>undefined\<close>.
\<close>

definition select_latest :: "string \<Rightarrow> db \<Rightarrow> string option" where
  "select_latest pat st =
     (case rev (sort (filter (like pat) (map reg_no (rows st)))) of
        [] \<Rightarrow> None
      | r # _ \<Rightarrow> Some r)"

text \<open>
  A driver call is rejected when SQLite reports an error. \<open>fault\<close> is the error the
  environment raises in this call (I/O error, busy or full database), if any.
\<close>

definition dbGet :: "string option \<Rightarrow> string \<Rightarrow> db \<Rightarrow> js_error + string option" where
  "dbGet fault pat st =
     (case fault of Some m \<Rightarrow> Inl (SqliteError m) | None \<Rightarrow> Inr (select_latest pat st))"

definition next_id :: "db \<Rightarrow> nat" where
  "next_id st = Suc (max (seq st) (fold max (map row_id (rows st)) 0))"

definition unique_failed :: string where
  "unique_failed = ''SQLITE_CONSTRAINT: UNIQUE constraint failed: students.reg_no''"

text \<open>
  \<open>INSERT INTO students (reg_no, name, email, department, address, division) VALUES (...)\<close>.
  \<open>reg_no\<close> is \<open>UNIQUE\<close>; a failed statement changes nothing.
\<close>

definition dbRun :: "string option \<Rightarrow> string \<Rightarrow> string \<Rightarrow> string \<Rightarrow> string \<Rightarrow> string \<Rightarrow> string
    \<Rightarrow> db \<Rightarrow> js_error + db" where
  "dbRun fault r n e d a v st =
     (case fault of
        Some m \<Rightarrow> Inl (SqliteError m)
      | None \<Rightarrow>
          if r \<in> set (map reg_no (rows st)) then Inl (SqliteError unique_failed)
          else Inr \<lparr>rows = rows st @
                      [\<lparr>row_id = next_id st, reg_no = r, name = n, email = e,
                        department = d, address = a, division = v\<rparr>],
                    seq = next_id st\<rparr>)"

text \<open>
  The two \<open>SELECT\<close>s of the listing, \<open>ORDER BY id DESC\<close>, with and without
  \<open>WHERE department = ?\<close>.
\<close>

definition dbAll :: "string option \<Rightarrow> string option \<Rightarrow> db \<Rightarrow> js_error + student list" where
  "dbAll fault dept st =
     (case fault of
        Some m \<Rightarrow> Inl (SqliteError m)
      | None \<Rightarrow>
          (case dept of
             None \<Rightarrow> Inr (rev (sort_key row_id (rows st)))
           | Some d \<Rightarrow> Inr (rev (sort_key row_id (filter (\<lambda>r. department r = d) (rows st))))))"

section \<open>The registration number allocator\<close>

definition sequencePart :: "int \<Rightarrow> string" where
  "sequencePart nextSequence = padStart (String_int nextSequence) 3 (CHR ''0'')"

definition generateRegistrationNumber :: "string option \<Rightarrow> int \<Rightarrow> db \<Rightarrow> js_error + string" where
  "generateRegistrationNumber fault currentYear st =
     (let prefix = ''COL'' @ String_int currentYear in
      case dbGet fault (prefix @ ''%'') st of
        Inl err \<Rightarrow> Inl err
      | Inr latest \<Rightarrow>
          (let nextSequence =
                 (case latest of
                    None \<Rightarrow> 1
                  | Some r \<Rightarrow>
                      if r \<noteq> [] then
                        (case parseInt10 (slice_last r 3) of
                           None \<Rightarrow> 1
                         | Some lastSeq \<Rightarrow> lastSeq + 1)
                      else 1)
           in Inr (prefix @ sequencePart nextSequence)))"

section \<open>The HTTP handlers\<close>

datatype response_body =
    Registered string jsval jsval jsval jsval jsval
      \<comment> \<open>\<open>{success: true, student: {reg_no, name, email, department, address, division}}\<close>\<close>
  | Students "student list"
      \<comment> \<open>\<open>{success: true, students}\<close>\<close>
  | Failure string
      \<comment> \<open>\<open>{success: false, error}\<close>\<close>

record response =
  status :: nat
  body :: response_body

datatype db_call = Get | Run | All

text \<open>
  What one request does: the response sent, the database afterwards, the lines written by
  \<open>console.error\<close>, and the driver calls made, in order.
\<close>

record outcome =
  sent :: response
  database :: db
  console :: "js_error list"
  calls :: "db_call list"

definition missingFields :: "jsobject \<Rightarrow> string list" where
  "missingFields b =
     (if \<not> truthy (b ''name'') then [''name''] else []) @
     (if \<not> truthy (b ''email'') then [''email''] else []) @
     (if \<not> truthy (b ''department'') then [''department''] else []) @
     (if \<not> truthy (b ''address'') then [''address''] else []) @
     (if \<not> truthy (b ''division'') then [''division''] else [])"

text \<open>\<open>v.trim()\<close>: only a string has the method; on any other truthy value the call throws.\<close>

fun js_trim :: "string \<Rightarrow> jsval \<Rightarrow> js_error + string" where
  "js_trim f (JStr s) = Inr (trim s)"
| "js_trim f v = Inl (TypeError (f @ ''.trim is not a function''))"

text \<open>
  The parameter array \<open>[regNo, name.trim(), email.trim(), department.trim(), address.trim(),
  division.trim()]\<close> is evaluated left to right before \<open>dbRun\<close> is called; the first call
  that throws ends the evaluation.
\<close>

definition insert_params :: "jsobject \<Rightarrow> js_error + (string \<times> string \<times> string \<times> string \<times> string)" where
  "insert_params b =
     (case js_trim ''name'' (b ''name'') of Inl err \<Rightarrow> Inl err | Inr n \<Rightarrow>
     (case js_trim ''email'' (b ''email'') of Inl err \<Rightarrow> Inl err | Inr e \<Rightarrow>
     (case js_trim ''department'' (b ''department'') of Inl err \<Rightarrow> Inl err | Inr d \<Rightarrow>
     (case js_trim ''address'' (b ''address'') of Inl err \<Rightarrow> Inl err | Inr a \<Rightarrow>
     (case js_trim ''division'' (b ''division'') of Inl err \<Rightarrow> Inl err | Inr v \<Rightarrow>
        Inr (n, e, d, a, v))))))"

text \<open>The \<open>catch\<close> block of both handlers.\<close>

definition internal_error :: "js_error \<Rightarrow> db \<Rightarrow> db_call list \<Rightarrow> outcome" where
  "internal_error err st cs =
     \<lparr>sent = \<lparr>status = 500, body = Failure ''Internal Server Error''\<rparr>,
      database = st, console = [err], calls = cs\<rparr>"

text \<open>
  \<open>POST /api/register\<close>. \<open>currentYear\<close> is what the clock gives; \<open>get_fault\<close> and
  \<open>run_fault\<close> are the errors the environment raises in the handler's \<open>dbGet\<close> and
  \<open>dbRun\<close> calls, if any.
\<close>

definition post_register :: "int \<Rightarrow> string option \<Rightarrow> string option \<Rightarrow> jsobject \<Rightarrow> db \<Rightarrow> outcome" where
  "post_register currentYear get_fault run_fault b st =
     (let missing = missingFields b in
      if length missing > 0 then
        \<lparr>sent = \<lparr>status = 400, body = Failure (''Missing fields: '' @ join missing '', '')\<rparr>,
         database = st, console = [], calls = []\<rparr>
      else
        (case generateRegistrationNumber get_fault currentYear st of
           Inl err \<Rightarrow> internal_error err st [Get]
         | Inr regNo \<Rightarrow>
            (case insert_params b of
               Inl err \<Rightarrow> internal_error err st [Get]
             | Inr (n, e, d, a, v) \<Rightarrow>
                (case dbRun run_fault regNo n e d a v st of
                   Inl err \<Rightarrow> internal_error err st [Get, Run]
                 | Inr st' \<Rightarrow>
                     \<lparr>sent = \<lparr>status = 201,
                               body = Registered regNo (b ''name'') (b ''email'') (b ''department'')
                                        (b ''address'') (b ''division'')\<rparr>,
                      database = st', console = [], calls = [Get, Run]\<rparr>))))"

text \<open>
  \<open>GET /api/students\<close>. The query parameter \<open>department\<close> is absent or a string (a
  repeated or bracketed parameter, which the query parser turns into an array or an
  object, is not modelled). \<open>if (department)\<close> is false for the empty string.
\<close>

definition get_students :: "string option \<Rightarrow> string option \<Rightarrow> db \<Rightarrow> outcome" where
  "get_students all_fault dept st =
     (case (if dept \<noteq> None \<and> dept \<noteq> Some []
            then dbAll all_fault dept st
            else dbAll all_fault None st) of
        Inl err \<Rightarrow> internal_error err st [All]
      | Inr students \<Rightarrow>
          \<lparr>sent = \<lparr>status = 200, body = Students students\<rparr>,
           database = st, console = [], calls = [All]\<rparr>)"

text \<open>Requests served one after the other, each on the database the previous one left.\<close>

fun serve_registrations :: "int \<Rightarrow> jsobject list \<Rightarrow> db \<Rightarrow> response list \<times> db" where
  "serve_registrations y [] st = ([], st)"
| "serve_registrations y (b # bs) st =
     (let out = post_register y None None b st;
          (rs, st') = serve_registrations y bs (database out)
      in (sent out # rs, st'))"

text \<open>
  The table is created empty by the schema bootstrap and only \<open>POST /api/register\<close> writes
  to it: these are the databases the server can hold.
\<close>

definition empty_db :: db where
  "empty_db = \<lparr>rows = [], seq = 0\<rparr>"

inductive reachable :: "db \<Rightarrow> bool" where
  initial: "reachable empty_db"
| registered: "reachable st \<Longrightarrow> reachable (database (post_register y gf rf b st))"

section \<open>Notions used in the statements\<close>

subsection \<open>The allocator as the specification words it\<close>

text \<open>\<open>s.startsWith(p)\<close>.\<close>

definition starts_with :: "string \<Rightarrow> string \<Rightarrow> bool" where
  "starts_with s p = (take (length p) s = p)"

text \<open>
  The specification's algorithm, step by step: the prefix is \<open>COL\<close> followed by the year;
  of the registration numbers that start with the prefix, the one that comes first when
  they are ordered descending is the greatest; if there is none the sequence is 1, otherwise
  the last three characters of the greatest are parsed as a base-10 integer and the
  sequence is the parsed value plus 1, or 1 when the parse fails; the result is the prefix
  followed by the sequence, zero-padded to width 3.
\<close>

definition allocator_spec :: "int \<Rightarrow> db \<Rightarrow> string" where
  "allocator_spec year st =
     (let prefix = ''COL'' @ String_int year;
          matching = filter (\<lambda>r. starts_with r prefix) (map reg_no (rows st));
          sequence = (if matching = [] then 1
                      else (case parseInt10 (slice_last (Max (set matching)) 3) of
                              None \<Rightarrow> 1
                            | Some parsed \<Rightarrow> parsed + 1))
      in prefix @ padStart (String_int sequence) 3 (CHR ''0''))"

subsection \<open>Registration numbers of one year\<close>

definition year_prefix :: "int \<Rightarrow> string" where
  "year_prefix y = ''COL'' @ String_int y"

text \<open>The registration numbers that the allocator's query selects from, in table order.\<close>

definition year_regs :: "int \<Rightarrow> db \<Rightarrow> string list" where
  "year_regs y st = filter (like (year_prefix y @ ''%'')) (map reg_no (rows st))"

text \<open>The numbers of the sequences 1 to \<open>k\<close> of a year.\<close>

definition issued :: "int \<Rightarrow> nat \<Rightarrow> string set" where
  "issued y k = (\<lambda>i. year_prefix y @ sequencePart (int i)) ` {1..k}"

text \<open>The characters of \<open>String(n)\<close>: digits and the minus sign.\<close>

definition plain :: "char \<Rightarrow> bool" where
  "plain c = (c = CHR ''-'' \<or> is_digit c)"

subsection \<open>Submissions and responses\<close>

definition required_fields :: "string list" where
  "required_fields = [''name'', ''email'', ''department'', ''address'', ''division'']"

text \<open>A valid submission carries a non-empty string in each of the five fields.\<close>

fun filled :: "jsval \<Rightarrow> bool" where
  "filled (JStr s) = (s \<noteq> [])"
| "filled v = False"

definition valid_submission :: "jsobject \<Rightarrow> bool" where
  "valid_submission b =
     (filled (b ''name'') \<and> filled (b ''email'') \<and> filled (b ''department'') \<and>
      filled (b ''address'') \<and> filled (b ''division''))"

fun str :: "jsval \<Rightarrow> string" where
  "str (JStr s) = s"
| "str v = []"

text \<open>The response to a successful registration, and the one the \<open>catch\<close> block sends.\<close>

definition created :: "string \<Rightarrow> jsobject \<Rightarrow> response" where
  "created regNo b =
     \<lparr>status = 201,
      body = Registered regNo (b ''name'') (b ''email'') (b ''department'') (b ''address'') (b ''division'')\<rparr>"

definition generic_500 :: response where
  "generic_500 = \<lparr>status = 500, body = Failure ''Internal Server Error''\<rparr>"

text \<open>The row that a valid submission adds under the registration number \<open>r\<close>.\<close>

definition new_row :: "db \<Rightarrow> string \<Rightarrow> jsobject \<Rightarrow> student" where
  "new_row st r b =
     \<lparr>row_id = next_id st, reg_no = r, name = trim (str (b ''name'')), email = trim (str (b ''email'')),
      department = trim (str (b ''department'')), address = trim (str (b ''address'')),
      division = trim (str (b ''division''))\<rparr>"

text \<open>
  The responses to serial valid submissions when the sequence numbers go up by one from
  \<open>k + 1\<close>.
\<close>

fun numbered :: "int \<Rightarrow> nat \<Rightarrow> jsobject list \<Rightarrow> response list" where
  "numbered y k [] = []"
| "numbered y k (b # bs) = created (year_prefix y @ sequencePart (int (Suc k))) b # numbered y (Suc k) bs"

text \<open>The records of a listing response, and the records a listing request asks for.\<close>

definition listed :: "outcome \<Rightarrow> student list" where
  "listed out = (case body (sent out) of Students rs \<Rightarrow> rs | _ \<Rightarrow> [])"

definition wanted :: "string option \<Rightarrow> student \<Rightarrow> bool" where
  "wanted dept r = (case dept of None \<Rightarrow> True | Some d \<Rightarrow> department r = d)"

subsection \<open>Concrete requests and databases\<close>

definition alice :: jsobject where
  "alice = (\<lambda>k. JUndefined)(''name'' := JStr ''Alice'', ''email'' := JStr ''alice@example.org'',
     ''department'' := JStr ''Physics'', ''address'' := JStr ''1 Main St'', ''division'' := JStr ''A'')"

definition bob :: jsobject where
  "bob = (\<lambda>k. JUndefined)(''name'' := JStr ''Bob'', ''email'' := JStr ''bob@example.org'',
     ''department'' := JStr ''Mathematics'', ''address'' := JStr ''2 High St'', ''division'' := JStr ''B'')"

definition two_missing :: jsobject where
  "two_missing = alice(''name'' := JUndefined, ''division'' := JUndefined)"

definition blank_name :: jsobject where
  "blank_name = alice(''name'' := JStr '' '')"

definition no_email :: jsobject where
  "no_email = alice(''email'' := JStr [])"

text \<open>The database after 1000 registrations in 2025, and after two.\<close>

definition after_1000 :: db where
  "after_1000 = snd (serve_registrations 2025 (replicate 1000 alice) empty_db)"

definition two_students :: db where
  "two_students = snd (serve_registrations 2025 [alice, bob] empty_db)"

text \<open>A table with a registration number of 2025 whose last three characters are no numeral.\<close>

definition unparsable_table :: db where
  "unparsable_table =
     \<lparr>rows = [\<lparr>row_id = 1, reg_no = ''COL2025abc'', name = ''Carol'', email = ''carol@example.org'',
               department = ''Physics'', address = ''3 Low St'', division = ''C''\<rparr>],
      seq = 1\<rparr>"

section \<open>Decimal numerals\<close>

lemma of_char_digit_char: "d < 10 \<Longrightarrow> of_char (digit_char d) = 48 + d"
  by (simp add: digit_char_def)

lemma digit_char_less: "a < 10 \<Longrightarrow> b < 10 \<Longrightarrow> digit_char a < digit_char b \<longleftrightarrow> a < b"
  by (simp add: less_char_def of_char_digit_char)

lemma digit_char_eq: "a < 10 \<Longrightarrow> b < 10 \<Longrightarrow> digit_char a = digit_char b \<longleftrightarrow> a = b"
  using of_char_digit_char [of a] of_char_digit_char [of b] by (metis add_left_cancel)

lemma decimal_1: "m < 10 \<Longrightarrow> decimal m = [digit_char m]"
  by (simp add: decimal.simps)

lemma decimal_2: "10 \<le> m \<Longrightarrow> m < 100 \<Longrightarrow> decimal m = [digit_char (m div 10), digit_char (m mod 10)]"
  by (subst decimal.simps) (simp add: decimal_1)

lemma decimal_3: "100 \<le> m \<Longrightarrow> m < 1000 \<Longrightarrow>
  decimal m = [digit_char (m div 100), digit_char (m div 10 mod 10), digit_char (m mod 10)]"
proof -
  assume a: "100 \<le> m" "m < 1000"
  have b: "10 \<le> m div 10" "m div 10 < 100" using a by auto
  have c: "m div 10 div 10 = m div 100" by (simp add: div_mult2_eq[symmetric])
  show ?thesis
    using a by (subst decimal.simps) (simp add: decimal_2 [OF b] c)
qed


lemma char_0: "CHR ''0'' = digit_char 0"
  by code_simp

lemma sequencePart_lt_1000:
  assumes "n < 1000"
  shows "sequencePart (int n) = [digit_char (n div 100), digit_char (n div 10 mod 10), digit_char (n mod 10)]"
proof -
  consider "n < 10" | "10 \<le> n" "n < 100" | "100 \<le> n" "n < 1000" using assms by linarith
  then show ?thesis
  proof cases
    case 1
    have "replicate (3 - Suc 0) (CHR ''0'') = [CHR ''0'', CHR ''0'']" by (simp add: numeral_3_eq_3)
    then show ?thesis using 1
      by (simp add: sequencePart_def String_int_def padStart_def decimal_1 char_0 del: replicate.simps)
  next
    case 2
    have "replicate (3 - Suc (Suc 0)) (CHR ''0'') = [CHR ''0'']" by (simp add: numeral_3_eq_3)
    then show ?thesis using 2
      by (simp add: sequencePart_def String_int_def padStart_def decimal_2 char_0 del: replicate.simps)
  next
    case 3
    then show ?thesis
      by (simp add: sequencePart_def String_int_def padStart_def decimal_3)
  qed
qed

lemma is_digit_digit_char: "d < 10 \<Longrightarrow> is_digit (digit_char d)"
  by (simp add: is_digit_def less_eq_char_def of_char_digit_char)

lemma digit_val_digit_char: "d < 10 \<Longrightarrow> digit_val (digit_char d) = d"
  by (simp add: digit_val_def of_char_digit_char)

lemma not_ws_digit_char: "d < 10 \<Longrightarrow> \<not> isWhiteSpace (digit_char d)"
  by (simp add: isWhiteSpace_def of_char_digit_char)

lemma digit_char_not_sign: "d < 10 \<Longrightarrow> digit_char d \<noteq> CHR ''-'' \<and> digit_char d \<noteq> CHR ''+''"
  using of_char_digit_char [of d] by auto

lemma parseInt10_three_digits:
  assumes "a < 10" "b < 10" "c < 10"
  shows "parseInt10 [digit_char a, digit_char b, digit_char c] = Some (int (100 * a + 10 * b + c))"
proof -
  let ?s = "[digit_char a, digit_char b, digit_char c]"
  have t: "dropWhile isWhiteSpace ?s = ?s" using assms by (simp add: not_ws_digit_char)
  have d: "takeWhile is_digit ?s = ?s" using assms by (simp add: is_digit_digit_char)
  have v: "digits_val ?s = 100 * a + 10 * b + c"
    using assms by (simp add: digits_val_def digit_val_digit_char)
  have h: "hd ?s \<noteq> CHR ''-''" "hd ?s \<noteq> CHR ''+''" using digit_char_not_sign [OF assms(1)] by simp_all
  show ?thesis
    unfolding parseInt10_def t Let_def using h by (simp only: d v if_False simp_thms list.simps)
qed

lemma digits_of_nat:
  "100 * (n div 100) + 10 * (n div 10 mod 10) + n mod 10 = (n::nat)"
proof -
  have "n mod (10 * 10) = 10 * (n div 10 mod 10) + n mod 10" by (rule mod_mult2_eq)
  then have "n mod 100 = 10 * (n div 10 mod 10) + n mod 10" by simp
  moreover have "100 * (n div 100) + n mod 100 = n" by simp
  ultimately show ?thesis by linarith
qed

lemma parseInt10_sequencePart:
  assumes "n < 1000"
  shows "parseInt10 (sequencePart (int n)) = Some (int n)"
proof -
  have "n div 100 < 10" using assms by simp
  moreover have "n div 10 mod 10 < 10" "n mod 10 < 10" by simp_all
  ultimately show ?thesis
    using parseInt10_three_digits [of "n div 100" "n div 10 mod 10" "n mod 10"]
    by (simp only: sequencePart_lt_1000 [OF assms] digits_of_nat)
qed

lemma three_digits_less:
  assumes "a < 10" "b < 10" "c < 10" "a' < 10" "b' < 10" "c' < 10"
  shows "[digit_char a, digit_char b, digit_char c] < [digit_char a', digit_char b', digit_char c']
     \<longleftrightarrow> 100 * a + 10 * b + c < 100 * a' + 10 * b' + c'"
proof -
  have "[digit_char a, digit_char b, digit_char c] < [digit_char a', digit_char b', digit_char c']
     \<longleftrightarrow> a < a' \<or> a = a' \<and> (b < b' \<or> b = b' \<and> c < c')"
    using assms by (simp add: digit_char_less digit_char_eq)
  also have "\<dots> \<longleftrightarrow> 100 * a + 10 * b + c < 100 * a' + 10 * b' + c'"
    using assms by linarith
  finally show ?thesis .
qed

lemma sequencePart_less:
  assumes "m < 1000" "n < 1000"
  shows "sequencePart (int m) < sequencePart (int n) \<longleftrightarrow> m < n"
proof -
  have "m div 100 < 10" "n div 100 < 10" using assms by simp_all
  moreover have "m div 10 mod 10 < 10" "m mod 10 < 10" "n div 10 mod 10 < 10" "n mod 10 < 10" by simp_all
  ultimately show ?thesis
    using three_digits_less [of "m div 100" "m div 10 mod 10" "m mod 10" "n div 100" "n div 10 mod 10" "n mod 10"]
    by (simp only: sequencePart_lt_1000 [OF assms(1)] sequencePart_lt_1000 [OF assms(2)] digits_of_nat)
qed

section \<open>The pattern of the allocator's query\<close>

lemma like_percent: "like ''%'' s"
  by (induction s) simp_all

lemma plain_range: "plain c \<Longrightarrow> of_char c < (65::nat)"
  unfolding plain_def is_digit_def less_eq_char_def by auto

lemma plain_not_wild: "plain c \<Longrightarrow> c \<noteq> CHR ''%'' \<and> c \<noteq> CHR ''_''"
  unfolding plain_def is_digit_def less_eq_char_def by auto

lemma ascii_lower_plain: "plain c \<Longrightarrow> ascii_lower c = c"
  using plain_range [of c] unfolding ascii_lower_def less_eq_char_def by auto

lemma of_char_ascii_lower_upper:
  assumes "CHR ''A'' \<le> x" "x \<le> CHR ''Z''"
  shows "of_char (ascii_lower x) = of_char x + (32::nat)"
proof -
  have "of_char x \<le> (90::nat)" using assms(2) unfolding less_eq_char_def by simp
  then have "(of_char x + 32) mod 256 = of_char x + (32::nat)" by simp
  then show ?thesis using assms by (simp add: ascii_lower_def)
qed

lemma plain_lower:
  assumes "plain c"
  shows "ascii_lower x = ascii_lower c \<longleftrightarrow> x = c"
proof (cases "CHR ''A'' \<le> x \<and> x \<le> CHR ''Z''")
  case True
  then have "of_char (ascii_lower x) = of_char x + (32::nat)"
    by (simp add: of_char_ascii_lower_upper)
  moreover have "of_char x \<ge> (65::nat)" using True unfolding less_eq_char_def by simp
  ultimately have "of_char (ascii_lower x) \<noteq> (of_char c :: nat)" "of_char x \<noteq> (of_char c :: nat)"
    using plain_range [OF assms] by linarith+
  then show ?thesis using ascii_lower_plain [OF assms] by auto
next
  case False
  then have "ascii_lower x = x" by (auto simp add: ascii_lower_def)
  then show ?thesis using ascii_lower_plain [OF assms] by simp
qed

lemma upper_lower_COL:
  "ascii_lower (CHR ''C'') = CHR ''c''" "ascii_lower (CHR ''O'') = CHR ''o''" "ascii_lower (CHR ''L'') = CHR ''l''"
  by code_simp+

lemma starts_with_Nil [simp]: "starts_with s []"
  by (simp add: starts_with_def)

lemma starts_with_Cons_Nil [simp]: "\<not> starts_with [] (p # ps)"
  by (simp add: starts_with_def)

lemma starts_with_Cons_Cons [simp]: "starts_with (c # cs) (p # ps) \<longleftrightarrow> c = p \<and> starts_with cs ps"
  by (simp add: starts_with_def)

lemma starts_with_append [simp]: "starts_with (p @ s) p"
  by (simp add: starts_with_def)

lemma like_plain_prefix:
  "\<forall>c\<in>set q. plain c \<Longrightarrow> like (q @ ''%'') s \<longleftrightarrow> starts_with s q"
proof (induction q arbitrary: s)
  case Nil
  then show ?case by (simp add: like_percent)
next
  case (Cons p ps)
  then have p: "plain p" and ps: "\<forall>c\<in>set ps. plain c" by simp_all
  show ?case
  proof (cases s)
    case Nil
    then show ?thesis using plain_not_wild [OF p] by simp
  next
    case (Cons c cs)
    have "ascii_lower p = ascii_lower c \<longleftrightarrow> c = p"
      using plain_lower [OF p, of c] by auto
    then show ?thesis
      using Cons plain_not_wild [OF p] Cons.IH [OF ps, of cs] by simp
  qed
qed

lemma plain_decimal: "\<forall>c\<in>set (decimal n). plain c"
proof (induction n rule: decimal.induct)
  case (1 n)
  show ?case
  proof (cases "n < 10")
    case True
    then show ?thesis by (simp add: decimal_1 plain_def is_digit_digit_char)
  next
    case False
    have "n mod 10 < 10" by simp
    then have "plain (digit_char (n mod 10))" by (simp add: plain_def is_digit_digit_char)
    then show ?thesis using False 1 by (subst decimal.simps) simp
  qed
qed

lemma plain_String_int: "\<forall>c\<in>set (String_int y). plain c"
  using plain_decimal by (simp add: String_int_def plain_def)

lemma like_year_prefix:
  "like ((''COL'' @ String_int y) @ ''%'') (''COL'' @ s) \<longleftrightarrow> starts_with (''COL'' @ s) (''COL'' @ String_int y)"
  using like_plain_prefix [OF plain_String_int, of y s]
  by (simp add: upper_lower_COL)

section \<open>What the allocator computes\<close>

lemma sorted_last_Max:
  fixes ys :: "'a::linorder list"
  shows "sorted ys \<Longrightarrow> ys \<noteq> [] \<Longrightarrow> last ys = Max (set ys)"
proof (induction ys)
  case Nil
  then show ?case by simp
next
  case (Cons y ys)
  show ?case
  proof (cases "ys = []")
    case True
    then show ?thesis by simp
  next
    case False
    then have l: "last ys = Max (set ys)" using Cons by simp
    have "last ys \<in> set ys" using False by simp
    then have "y \<le> last ys" using Cons.prems(1) by auto
    then have "max y (Max (set ys)) = Max (set ys)" using l by (simp add: max_def)
    then show ?thesis using False l by simp
  qed
qed

lemma select_latest_Max:
  "select_latest pat st =
     (if filter (like pat) (map reg_no (rows st)) = [] then None
      else Some (Max (set (filter (like pat) (map reg_no (rows st))))))"
proof -
  let ?xs = "filter (like pat) (map reg_no (rows st))"
  show ?thesis
  proof (cases "?xs = []")
    case True
    then show ?thesis by (simp add: select_latest_def)
  next
    case False
    then have ne: "sort ?xs \<noteq> []" by (metis length_sort length_0_conv)
    then obtain r rs where r: "rev (sort ?xs) = r # rs" by (cases "rev (sort ?xs)") auto
    then have "r = last (sort ?xs)" using ne by (metis hd_rev list.sel(1))
    also have "\<dots> = Max (set (sort ?xs))" using ne by (simp add: sorted_last_Max)
    finally have "r = Max (set ?xs)" by simp
    then show ?thesis using False r by (simp add: select_latest_def)
  qed
qed

lemma like_year_prefix_append: "like (year_prefix y @ ''%'') (year_prefix y @ s)"
  using like_year_prefix [of y "String_int y @ s"] by (simp add: year_prefix_def)

lemma not_like_Nil: "\<not> like (year_prefix y @ ''%'') []"
  by (simp add: year_prefix_def)

lemma year_regs_nonempty: "r \<in> set (year_regs y st) \<Longrightarrow> r \<noteq> []"
  using not_like_Nil by (auto simp add: year_regs_def)

lemma generate_eq:
  "generateRegistrationNumber None y st =
     Inr (year_prefix y @ sequencePart
       (if year_regs y st = [] then 1
        else (case parseInt10 (slice_last (Max (set (year_regs y st))) 3) of
                None \<Rightarrow> 1 | Some lastSeq \<Rightarrow> lastSeq + 1)))"
proof (cases "year_regs y st = []")
  case True
  then show ?thesis
    by (simp add: generateRegistrationNumber_def dbGet_def select_latest_Max year_regs_def year_prefix_def)
next
  case False
  then have "Max (set (year_regs y st)) \<in> set (year_regs y st)" by simp
  then have "Max (set (year_regs y st)) \<noteq> []" by (rule year_regs_nonempty)
  then show ?thesis using False
    by (simp add: generateRegistrationNumber_def dbGet_def select_latest_Max year_regs_def year_prefix_def)
qed

lemma generate_fault:
  "generateRegistrationNumber (Some m) y st = Inl (SqliteError m)"
  by (simp add: generateRegistrationNumber_def dbGet_def)

section \<open>One registration\<close>

lemma filled_truthy: "filled v \<Longrightarrow> truthy v"
  by (cases v) simp_all

lemma filled_trim: "filled v \<Longrightarrow> js_trim f v = Inr (trim (str v))"
  by (cases v) simp_all

lemma valid_missingFields: "valid_submission b \<Longrightarrow> missingFields b = []"
  by (simp add: valid_submission_def missingFields_def filled_truthy)

lemma valid_insert_params:
  "valid_submission b \<Longrightarrow>
   insert_params b = Inr (trim (str (b ''name'')), trim (str (b ''email'')), trim (str (b ''department'')),
                          trim (str (b ''address'')), trim (str (b ''division'')))"
  by (simp add: valid_submission_def insert_params_def filled_trim)

lemma register_fresh:
  assumes "valid_submission b" "generateRegistrationNumber None y st = Inr r"
    "r \<notin> set (map reg_no (rows st))"
  shows "post_register y None None b st =
     \<lparr>sent = created r b,
      database = \<lparr>rows = rows st @ [new_row st r b], seq = next_id st\<rparr>,
      console = [], calls = [Get, Run]\<rparr>"
  using assms(3)
  by (simp add: post_register_def valid_missingFields [OF assms(1)] assms(2)
      valid_insert_params [OF assms(1)] dbRun_def created_def new_row_def)

lemma register_duplicate:
  assumes "valid_submission b" "generateRegistrationNumber None y st = Inr r"
    "r \<in> set (map reg_no (rows st))"
  shows "post_register y None None b st = internal_error (SqliteError unique_failed) st [Get, Run]"
  using assms(3)
  by (simp add: post_register_def valid_missingFields [OF assms(1)] assms(2)
      valid_insert_params [OF assms(1)] dbRun_def)

section \<open>The registration numbers of a year, in order\<close>

lemma append_less_iff: "p @ a < p @ b \<longleftrightarrow> a < (b :: string)"
  by (induction p) simp_all

lemma append_le_iff: "p @ a \<le> p @ b \<longleftrightarrow> a \<le> (b :: string)"
  by (induction p) simp_all

lemma length_sequencePart: "n < 1000 \<Longrightarrow> length (sequencePart (int n)) = 3"
  by (simp add: sequencePart_lt_1000)

lemma sequencePart_1000: "sequencePart 1000 = ''1000''"
  by code_simp

lemma sequencePart_999: "sequencePart 999 = ''999''"
  by code_simp

lemma slice_last_3: "length s = 3 \<Longrightarrow> slice_last (p @ s) 3 = s"
  by (simp add: slice_last_def)

lemma sequencePart_le: "m \<le> n \<Longrightarrow> n < 1000 \<Longrightarrow> sequencePart (int m) \<le> sequencePart (int n)"
  using sequencePart_less [of m n] by (cases "m = n") (auto simp add: less_imp_le)

lemma finite_issued: "finite (issued y k)"
  by (simp add: issued_def)

lemma Max_issued:
  assumes "1 \<le> k" "k < 1000"
  shows "Max (issued y k) = year_prefix y @ sequencePart (int k)"
proof (rule Max_eqI)
  show "finite (issued y k)" by (rule finite_issued)
  show "year_prefix y @ sequencePart (int k) \<in> issued y k"
    using assms by (auto simp add: issued_def)
  fix r assume "r \<in> issued y k"
  then obtain i where "i \<le> k" "r = year_prefix y @ sequencePart (int i)"
    by (auto simp add: issued_def)
  then show "r \<le> year_prefix y @ sequencePart (int k)"
    using assms by (simp add: append_le_iff sequencePart_le)
qed

lemma issued_Suc: "issued y (Suc k) = insert (year_prefix y @ sequencePart (int (Suc k))) (issued y k)"
  by (auto simp add: issued_def atLeastAtMostSuc_conv)

lemma Max_issued_1000: "Max (issued y 1000) = year_prefix y @ sequencePart 999"
proof -
  have a: "Max (issued y 999) = year_prefix y @ sequencePart (int 999)"
    by (rule Max_issued) simp_all
  have ne: "issued y 999 \<noteq> {}" by (simp add: issued_def)
  have "issued y 1000 = insert (year_prefix y @ sequencePart (int (Suc 999))) (issued y 999)"
    using issued_Suc [of y 999] by simp
  then have "Max (issued y 1000) = max (year_prefix y @ sequencePart 1000) (Max (issued y 999))"
    using ne by (simp add: finite_issued)
  also have "\<dots> = year_prefix y @ sequencePart 999"
    using a by (simp add: max_def append_le_iff sequencePart_1000 sequencePart_999)
  finally show ?thesis .
qed

lemma issued_0: "issued y 0 = {}"
  by (simp add: issued_def)

lemma generate_next:
  assumes "set (year_regs y st) = issued y k" "k < 1000"
  shows "generateRegistrationNumber None y st = Inr (year_prefix y @ sequencePart (int (Suc k)))"
proof (cases "k = 0")
  case True
  then have "year_regs y st = []" using assms(1) by (simp add: issued_0)
  then show ?thesis using True by (simp add: generate_eq)
next
  case False
  then have ne: "year_regs y st \<noteq> []" using assms(1) by (auto simp add: issued_def)
  have "Max (set (year_regs y st)) = year_prefix y @ sequencePart (int k)"
    using False assms by (simp add: Max_issued)
  then have "parseInt10 (slice_last (Max (set (year_regs y st))) 3) = Some (int k)"
    using assms(2) by (simp add: slice_last_3 length_sequencePart parseInt10_sequencePart)
  then show ?thesis using ne by (simp add: generate_eq add.commute)
qed

lemma generate_stuck:
  assumes "set (year_regs y st) = issued y 1000"
  shows "generateRegistrationNumber None y st = Inr (year_prefix y @ sequencePart 1000)"
proof -
  have ne: "year_regs y st \<noteq> []" using assms by (auto simp add: issued_def)
  have "Max (set (year_regs y st)) = year_prefix y @ sequencePart (int 999)"
    using assms by (simp add: Max_issued_1000)
  moreover have "parseInt10 (slice_last (year_prefix y @ sequencePart (int 999)) 3) = Some (int 999)"
    by (simp add: slice_last_3 length_sequencePart parseInt10_sequencePart del: of_nat_numeral)
  ultimately have "parseInt10 (slice_last (Max (set (year_regs y st))) 3) = Some 999"
    by simp
  then show ?thesis using ne by (simp add: generate_eq)
qed

lemma sequencePart_fresh:
  assumes "i \<le> k" "k < 1000"
  shows "sequencePart (int i) \<noteq> sequencePart (int (Suc k))"
proof (cases "Suc k < 1000")
  case True
  then have "sequencePart (int i) < sequencePart (int (Suc k))"
    using assms sequencePart_less [of i "Suc k"] by simp
  then show ?thesis by simp
next
  case False
  then have "Suc k = 1000" using assms by simp
  then have "length (sequencePart (int (Suc k))) = 4" by (simp add: sequencePart_1000)
  moreover have "length (sequencePart (int i)) = 3" using assms by (simp add: length_sequencePart)
  ultimately show ?thesis by auto
qed

lemma next_not_issued:
  assumes "k < 1000"
  shows "year_prefix y @ sequencePart (int (Suc k)) \<notin> issued y k"
proof
  assume "year_prefix y @ sequencePart (int (Suc k)) \<in> issued y k"
  then obtain i where "i \<le> k" "year_prefix y @ sequencePart (int (Suc k)) = year_prefix y @ sequencePart (int i)"
    unfolding issued_def by auto
  then show False using sequencePart_fresh [OF _ assms, of i] by simp
qed

lemma in_year_regs: "r \<in> set (year_regs y st) \<longleftrightarrow> r \<in> set (map reg_no (rows st)) \<and> like (year_prefix y @ ''%'') r"
  by (auto simp add: year_regs_def)

lemma register_next:
  assumes "valid_submission b" "set (year_regs y st) = issued y k" "k < 1000"
  shows "post_register y None None b st =
     \<lparr>sent = created (year_prefix y @ sequencePart (int (Suc k))) b,
      database = \<lparr>rows = rows st @ [new_row st (year_prefix y @ sequencePart (int (Suc k))) b],
                  seq = next_id st\<rparr>,
      console = [], calls = [Get, Run]\<rparr>"
proof (rule register_fresh [OF assms(1) generate_next [OF assms(2,3)]])
  have "year_prefix y @ sequencePart (int (Suc k)) \<notin> set (year_regs y st)"
    unfolding assms(2) by (rule next_not_issued [OF assms(3)])
  then show "year_prefix y @ sequencePart (int (Suc k)) \<notin> set (map reg_no (rows st))"
    by (simp only: in_year_regs like_year_prefix_append simp_thms)
qed

lemma year_regs_after:
  "year_regs y \<lparr>rows = rows st @ [new_row st (year_prefix y @ s) b], seq = n\<rparr>
     = year_regs y st @ [year_prefix y @ s]"
  by (simp add: year_regs_def new_row_def like_year_prefix_append)

lemma register_stuck:
  assumes "valid_submission b" "set (year_regs y st) = issued y 1000"
  shows "post_register y None None b st = internal_error (SqliteError unique_failed) st [Get, Run]"
proof (rule register_duplicate [OF assms(1) generate_stuck [OF assms(2)]])
  have "year_prefix y @ sequencePart (int 1000) \<in> issued y 1000"
    unfolding issued_def by (rule imageI) simp
  then show "year_prefix y @ sequencePart 1000 \<in> set (map reg_no (rows st))"
    using assms(2) in_year_regs [of _ y st] by auto
qed

text \<open>
  Serial valid registrations in a year that starts with the sequences 1 to \<open>k\<close> issued are
  numbered \<open>k + 1\<close>, \<open>k + 2\<close>, ... one by one, up to the sequence 1000.
\<close>

lemma serve_sequential:
  assumes "list_all valid_submission bs" "set (year_regs y st) = issued y k" "k + length bs \<le> 1000"
  shows "fst (serve_registrations y bs st) = numbered y k bs \<and>
         set (year_regs y (snd (serve_registrations y bs st))) = issued y (k + length bs)"
  using assms
proof (induction bs arbitrary: st k)
  case Nil
  then show ?case by simp
next
  case (Cons b bs)
  let ?r = "year_prefix y @ sequencePart (int (Suc k))"
  let ?st = "\<lparr>rows = rows st @ [new_row st ?r b], seq = next_id st\<rparr>"
  have b: "valid_submission b" and bs: "list_all valid_submission bs" using Cons.prems(1) by simp_all
  have k: "k < 1000" using Cons.prems(3) by simp
  have step: "post_register y None None b st =
      \<lparr>sent = created ?r b, database = ?st, console = [], calls = [Get, Run]\<rparr>"
    by (rule register_next [OF b Cons.prems(2) k])
  have regs: "set (year_regs y ?st) = issued y (Suc k)"
    by (simp add: year_regs_after Cons.prems(2) issued_Suc del: of_nat_Suc)
  have len: "Suc k + length bs \<le> 1000" using Cons.prems(3) by simp
  note IH = Cons.IH [OF bs regs len]
  show ?case using IH by (simp add: step split_beta Let_def del: of_nat_Suc)
qed

lemma serve_append:
  "serve_registrations y (bs @ cs) st =
     (fst (serve_registrations y bs st) @ fst (serve_registrations y cs (snd (serve_registrations y bs st))),
      snd (serve_registrations y cs (snd (serve_registrations y bs st))))"
  by (induction bs arbitrary: st) (simp_all add: split_beta Let_def)

section \<open>The databases the server can hold\<close>

lemma generate_COL:
  assumes "generateRegistrationNumber gf y st = Inr r"
  shows "\<exists>s. r = year_prefix y @ s"
proof (cases gf)
  case None
  then show ?thesis using assms by (auto simp add: generate_eq)
next
  case (Some m)
  then show ?thesis using assms by (simp add: generate_fault)
qed

lemma post_register_cases:
  obtains (unchanged) "database (post_register y gf rf b st) = st"
  | (inserted) r n e d a v where
      "generateRegistrationNumber gf y st = Inr r"
      "r \<notin> set (map reg_no (rows st))"
      "insert_params b = Inr (n, e, d, a, v)"
      "database (post_register y gf rf b st) =
         \<lparr>rows = rows st @ [\<lparr>row_id = next_id st, reg_no = r, name = n, email = e,
                              department = d, address = a, division = v\<rparr>],
          seq = next_id st\<rparr>"
proof (cases "missingFields b = []")
  case False
  then have "database (post_register y gf rf b st) = st" by (simp add: post_register_def)
  then show ?thesis by (rule unchanged)
next
  case True
  show ?thesis
  proof (cases "generateRegistrationNumber gf y st")
    case (Inl err)
    then have "database (post_register y gf rf b st) = st"
      by (simp add: post_register_def True internal_error_def)
    then show ?thesis by (rule unchanged)
  next
    case (Inr r)
    show ?thesis
    proof (cases "insert_params b")
      case (Inl err)
      then have "database (post_register y gf rf b st) = st"
        by (simp add: post_register_def True Inr internal_error_def)
      then show ?thesis by (rule unchanged)
    next
      case params: (Inr t)
      obtain n e d a v where t: "t = (n, e, d, a, v)" by (cases t) auto
      show ?thesis
      proof (cases "dbRun rf r n e d a v st")
        case (Inl err)
        then have "database (post_register y gf rf b st) = st"
          by (simp add: post_register_def True Inr params t internal_error_def)
        then show ?thesis by (rule unchanged)
      next
        case run: (Inr st')
        then have fresh: "r \<notin> set (map reg_no (rows st))"
          and st': "st' = \<lparr>rows = rows st @ [\<lparr>row_id = next_id st, reg_no = r, name = n, email = e,
                              department = d, address = a, division = v\<rparr>], seq = next_id st\<rparr>"
          by (auto simp add: dbRun_def split: option.splits if_splits)
        have "database (post_register y gf rf b st) = st'"
          by (simp add: post_register_def True Inr params t run)
        then show ?thesis using inserted [OF Inr fresh] params t st' by simp
      qed
    qed
  qed
qed

lemma fold_max_ge_init: "(a::nat) \<le> fold max xs a"
proof (induction xs arbitrary: a)
  case Nil
  then show ?case by simp
next
  case (Cons z zs)
  have "a \<le> max z a" by simp
  also have "\<dots> \<le> fold max zs (max z a)" by (rule Cons.IH)
  finally show ?case by simp
qed

lemma fold_max_ge: "x \<in> set xs \<Longrightarrow> (x::nat) \<le> fold max xs a"
proof (induction xs arbitrary: a)
  case Nil
  then show ?case by simp
next
  case (Cons z zs)
  show ?case
  proof (cases "x = z")
    case True
    have "z \<le> max z a" by simp
    also have "\<dots> \<le> fold max zs (max z a)" by (rule fold_max_ge_init)
    finally show ?thesis using True by simp
  next
    case False
    then show ?thesis using Cons by simp
  qed
qed

lemma next_id_greater: "row \<in> set (rows st) \<Longrightarrow> row_id row < next_id st"
proof -
  assume "row \<in> set (rows st)"
  then have "row_id row \<in> set (map row_id (rows st))" by simp
  then have "row_id row \<le> fold max (map row_id (rows st)) 0" by (rule fold_max_ge)
  then show ?thesis by (simp add: next_id_def)
qed

lemma reachable_COL:
  "reachable st \<Longrightarrow> \<forall>row\<in>set (rows st). starts_with (reg_no row) ''COL''"
proof (induction rule: reachable.induct)
  case initial
  then show ?case by (simp add: empty_db_def)
next
  case (registered st y gf rf b)
  show ?case
  proof (cases rule: post_register_cases [of y gf rf b st])
    case unchanged
    then show ?thesis using registered.IH by simp
  next
    case (inserted r n e d a v)
    obtain s where "r = year_prefix y @ s" using generate_COL [OF inserted(1)] by auto
    then have "starts_with r ''COL''" by (simp add: year_prefix_def starts_with_def)
    then show ?thesis using registered.IH inserted(4) by simp
  qed
qed

lemma reachable_distinct:
  "reachable st \<Longrightarrow> distinct (map reg_no (rows st))"
proof (induction rule: reachable.induct)
  case initial
  then show ?case by (simp add: empty_db_def)
next
  case (registered st y gf rf b)
  show ?case
  proof (cases rule: post_register_cases [of y gf rf b st])
    case unchanged
    then show ?thesis using registered.IH by simp
  next
    case (inserted r n e d a v)
    then show ?thesis using registered.IH by simp
  qed
qed

lemma reachable_ids_increasing:
  "reachable st \<Longrightarrow> sorted_wrt (<) (map row_id (rows st))"
proof (induction rule: reachable.induct)
  case initial
  then show ?case by (simp add: empty_db_def)
next
  case (registered st y gf rf b)
  show ?case
  proof (cases rule: post_register_cases [of y gf rf b st])
    case unchanged
    then show ?thesis using registered.IH by simp
  next
    case (inserted r n e d a v)
    then show ?thesis using registered.IH next_id_greater [of _ st]
      by (simp add: sorted_wrt_append)
  qed
qed

lemma like_iff_starts_with:
  assumes "starts_with r ''COL''"
  shows "like (year_prefix y @ ''%'') r \<longleftrightarrow> starts_with r (year_prefix y)"
proof -
  from assms obtain s where r: "r = ''COL'' @ s"
    by (metis append_take_drop_id starts_with_def)
  show ?thesis unfolding r year_prefix_def by (rule like_year_prefix)
qed

lemma COL_year_regs:
  assumes "\<forall>row\<in>set (rows st). starts_with (reg_no row) ''COL''"
  shows "year_regs y st = filter (\<lambda>r. starts_with r (year_prefix y)) (map reg_no (rows st))"
  unfolding year_regs_def
  using assms by (auto intro!: filter_cong simp add: like_iff_starts_with)

lemma reachable_year_regs:
  assumes "reachable st"
  shows "year_regs y st = filter (\<lambda>r. starts_with r (year_prefix y)) (map reg_no (rows st))"
  by (rule COL_year_regs [OF reachable_COL [OF assms]])

section \<open>The allocator\<close>

text \<open>
  C1. Given the current calendar year, the allocator queries the store for the single
  record whose registration number starts with the prefix \<open>COL\<close> + year, ordered by
  registration number descending with limit one; if there is such a record it parses the
  last 3 characters of its registration number as a base-10 integer and takes the parsed
  value plus 1 as the next sequence (1 if the parse fails), and it returns the prefix
  followed by the sequence zero-padded to width 3. \<open>allocator_spec\<close> is this description;
  the allocator computes it on every table whose registration numbers begin with the
  capital letters \<open>COL\<close>, whatever follows them: there the letter case, which \<open>LIKE\<close> does
  not distinguish, makes no difference. These are the tables the server can hold
  (\<open>reachable_COL\<close>) and also tables with numbers whose last three characters do not
  parse.
\<close>

theorem allocator_follows_spec:
  assumes "\<forall>row\<in>set (rows st). starts_with (reg_no row) ''COL''"
  shows "generateRegistrationNumber None y st = Inr (allocator_spec y st)"
  by (simp add: generate_eq COL_year_regs [OF assms] allocator_spec_def Let_def
      sequencePart_def year_prefix_def split: option.split)

lemma valid_alice: "valid_submission alice"
  by (simp add: valid_submission_def alice_def)

text \<open>
  The three cases of the algorithm: a latest number that does not parse, one that does,
  and no number of the year.
\<close>

theorem allocator_follows_spec_witness:
  "map reg_no (rows unparsable_table) = [''COL2025abc''] \<and>
   starts_with ''COL2025abc'' ''COL'' \<and>
   parseInt10 (slice_last ''COL2025abc'' 3) = None \<and>
   generateRegistrationNumber None 2025 unparsable_table = Inr ''COL2025001'' \<and>
   generateRegistrationNumber None 2025 (database (post_register 2025 None None alice empty_db))
     = Inr ''COL2025002'' \<and>
   generateRegistrationNumber None 2026 (database (post_register 2025 None None alice empty_db))
     = Inr ''COL2026001''"
proof -
  have u: "\<forall>row\<in>set (rows unparsable_table). starts_with (reg_no row) ''COL''"
    by (simp add: unparsable_table_def starts_with_def)
  have r: "\<forall>row\<in>set (rows (database (post_register 2025 None None alice empty_db))).
      starts_with (reg_no row) ''COL''"
    by (rule reachable_COL [OF reachable.registered [OF reachable.initial]])
  have p: "parseInt10 (slice_last ''COL2025abc'' 3) = None"
    by code_simp
  have a: "allocator_spec 2025 unparsable_table = ''COL2025001''"
    by code_simp
  have b: "allocator_spec 2025 (database (post_register 2025 None None alice empty_db)) = ''COL2025002''"
    by code_simp
  have c: "allocator_spec 2026 (database (post_register 2025 None None alice empty_db)) = ''COL2026001''"
    by code_simp
  have m: "map reg_no (rows unparsable_table) = [''COL2025abc'']"
    by (simp add: unparsable_table_def)
  have s: "starts_with ''COL2025abc'' ''COL''"
    by (simp add: starts_with_def)
  show ?thesis
    using allocator_follows_spec [OF u, of 2025] allocator_follows_spec [OF r, of 2025]
      allocator_follows_spec [OF r, of 2026] m s p a b c
    by simp
qed

lemma sequencePart_1: "sequencePart 1 = ''001''"
  by code_simp
lemma sequencePart_2: "sequencePart 2 = ''002''"
  by code_simp
lemma year_prefix_2025: "year_prefix 2025 = ''COL2025''"
  by code_simp

text \<open>
  C3. When the store holds no record whose registration number starts with the prefix of
  the current year, the first registration of the year is assigned \<open>COL{year}001\<close> and a
  second one right after it \<open>COL{year}002\<close>.
\<close>

theorem first_two_registrations:
  assumes "reachable st"
    and "\<forall>row\<in>set (rows st). \<not> starts_with (reg_no row) (year_prefix y)"
    and "valid_submission b1" and "valid_submission b2"
  shows "fst (serve_registrations y [b1, b2] st) =
           [created (year_prefix y @ ''001'') b1, created (year_prefix y @ ''002'') b2]"
proof -
  have "year_regs y st = []"
    using assms(2) by (simp add: reachable_year_regs [OF assms(1)] filter_empty_conv)
  then have "set (year_regs y st) = issued y 0" by (simp add: issued_0)
  moreover have "list_all valid_submission [b1, b2]" using assms(3,4) by simp
  ultimately have "fst (serve_registrations y [b1, b2] st) = numbered y 0 [b1, b2]"
    using serve_sequential [of "[b1, b2]" y st 0] by simp
  then show ?thesis by (simp add: sequencePart_1 sequencePart_2)
qed

theorem first_two_registrations_witness:
  "reachable empty_db \<and> valid_submission alice \<and>
   fst (serve_registrations 2025 [alice, alice] empty_db) =
     [created ''COL2025001'' alice, created ''COL2025002'' alice]"
proof -
  have "\<forall>row\<in>set (rows empty_db). \<not> starts_with (reg_no row) (year_prefix 2025)"
    by (simp add: empty_db_def)
  then show ?thesis
    using first_two_registrations [OF reachable.initial _ valid_alice valid_alice, of 2025]
    by (simp add: reachable.initial valid_alice year_prefix_2025)
qed

lemma list_all_replicate_alice: "list_all valid_submission (replicate n alice)"
  by (simp add: list_all_iff valid_alice)

lemma year_regs_empty_db: "set (year_regs y empty_db) = issued y 0"
  by (simp add: year_regs_def empty_db_def issued_0)

lemma first_1000:
  "fst (serve_registrations 2025 (replicate 1000 alice) empty_db) = numbered 2025 0 (replicate 1000 alice)"
  "set (year_regs 2025 after_1000) = issued 2025 1000"
  using serve_sequential [OF list_all_replicate_alice year_regs_empty_db, of 1000 2025]
  by (simp_all add: after_1000_def)

text \<open>
  Beyond the sequence 1000 the year is exhausted: with the numbers of the sequences 1 to
  1000 in the table, every further valid registration of that year is answered with the
  generic 500 and leaves the table as it is.
\<close>

lemma year_exhausted:
  assumes "set (year_regs y st) = issued y 1000" "list_all valid_submission bs"
  shows "serve_registrations y bs st = (replicate (length bs) generic_500, st)"
  using assms(2)
proof (induction bs)
  case Nil
  then show ?case by simp
next
  case (Cons b bs)
  then have "post_register y None None b st = internal_error (SqliteError unique_failed) st [Get, Run]"
    using register_stuck [OF _ assms(1), of b] by simp
  then show ?case using Cons by (simp add: internal_error_def generic_500_def)
qed

lemma registrations_beyond_1000_fail:
  assumes "set (year_regs y st) = issued y 0"
    and "list_all valid_submission bs" "length bs = 1000" "list_all valid_submission cs"
  shows "fst (serve_registrations y (bs @ cs) st) = numbered y 0 bs @ replicate (length cs) generic_500"
proof -
  have "fst (serve_registrations y bs st) = numbered y 0 bs"
    and "set (year_regs y (snd (serve_registrations y bs st))) = issued y 1000"
    using serve_sequential [OF assms(2) assms(1)] assms(3) by simp_all
  then show ?thesis
    by (simp add: serve_append year_exhausted [OF _ assms(4)])
qed

text \<open>
  C2. Serial valid registrations of one year are to be numbered 1, 2, 3, ... each one
  greater than the one before, with no gaps, however many there are. The first 1000 are
  (\<open>serve_sequential\<close>); the 1001st is answered with the generic 500 and gets no number.
\<close>

theorem registration_1001_fails:
  "fst (serve_registrations 2025 (replicate 1001 alice) empty_db) =
     numbered 2025 0 (replicate 1000 alice) @ [generic_500]"
proof -
  have "replicate 1001 alice = replicate 1000 alice @ [alice]"
    by (metis replicate_append_same replicate_Suc eval_nat_numeral(3) Suc_numeral semiring_norm(2,8) numeral_plus_one)
  moreover have "post_register 2025 None None alice after_1000 =
      internal_error (SqliteError unique_failed) after_1000 [Get, Run]"
    by (rule register_stuck [OF valid_alice first_1000(2)])
  ultimately show ?thesis
    by (simp add: serve_append first_1000(1) after_1000_def [symmetric] internal_error_def generic_500_def)
qed

lemma serve_reachable: "reachable st \<Longrightarrow> reachable (snd (serve_registrations y bs st))"
proof (induction bs arbitrary: st)
  case Nil
  then show ?case by simp
next
  case (Cons b bs)
  have "reachable (database (post_register y None None b st))"
    by (rule reachable.registered [OF Cons.prems])
  then show ?case using Cons.IH by (simp add: split_beta Let_def)
qed

lemma reachable_after_1000: "reachable after_1000"
  unfolding after_1000_def by (rule serve_reachable [OF reachable.initial])

lemma sequencePart_1000': "year_prefix 2025 @ sequencePart 1000 = ''COL20251000''"
  by (simp add: year_prefix_2025 sequencePart_1000)

lemma in_after_1000: "''COL20251000'' \<in> set (map reg_no (rows after_1000))"
proof -
  have "year_prefix 2025 @ sequencePart (int 1000) \<in> issued 2025 1000"
    unfolding issued_def by (rule imageI) simp
  then have "''COL20251000'' \<in> set (year_regs 2025 after_1000)"
    by (simp add: first_1000(2) sequencePart_1000')
  then show ?thesis by (simp add: in_year_regs)
qed

text \<open>
  C4. Sequence values beyond 999 are to give a registration number with a longer suffix
  and leave the allocation working. Once \<open>COL20251000\<close> is stored, the query still
  returns \<open>COL2025999\<close> as the latest number, since the text \<open>COL20251000\<close> sorts below it;
  the allocator computes 1000 again, the number is already in the table, and the
  registration fails.
\<close>

theorem allocation_stuck_after_1000:
  "generateRegistrationNumber None 2025 after_1000 = Inr ''COL20251000'' \<and>
   ''COL20251000'' \<in> set (map reg_no (rows after_1000)) \<and>
   post_register 2025 None None alice after_1000 =
     \<lparr>sent = generic_500, database = after_1000,
      console = [SqliteError unique_failed], calls = [Get, Run]\<rparr>"
proof -
  have "generateRegistrationNumber None 2025 after_1000 = Inr ''COL20251000''"
    using generate_stuck [OF first_1000(2)] by (simp add: sequencePart_1000')
  moreover have "post_register 2025 None None alice after_1000 =
      internal_error (SqliteError unique_failed) after_1000 [Get, Run]"
    by (rule register_stuck [OF valid_alice first_1000(2)])
  ultimately show ?thesis
    using in_after_1000 by (simp add: internal_error_def generic_500_def)
qed

lemma length_decimal_pos: "0 < length (decimal n)"
  by (subst decimal.simps) simp

lemma length_decimal_ge: "10 ^ k \<le> n \<Longrightarrow> k < length (decimal n)"
proof (induction k arbitrary: n)
  case 0
  show ?case by (rule length_decimal_pos)
next
  case (Suc k)
  then have "10 ^ k \<le> n div 10" by simp
  then have "k < length (decimal (n div 10))" by (rule Suc.IH)
  moreover have "\<not> n < 10" using Suc.prems
    by (metis One_nat_def le_trans not_less one_le_numeral one_le_power power_Suc mult.right_neutral mult_le_mono2)
  ultimately show ?case by (subst decimal.simps) simp
qed

lemma digits_decimal: "list_all is_digit (decimal n)"
proof (induction n rule: decimal.induct)
  case (1 n)
  show ?case
  proof (cases "n < 10")
    case True
    then show ?thesis by (simp add: decimal_1 is_digit_digit_char)
  next
    case False
    have "n mod 10 < 10" by simp
    then have "is_digit (digit_char (n mod 10))" by (rule is_digit_digit_char)
    then show ?thesis using False 1 by (subst decimal.simps) simp
  qed
qed

text \<open>
  The formatting step alone: beyond 999 the suffix is the plain decimal numeral, of four
  digits or more; up to 999 it has exactly three digits and reads back as the sequence.
\<close>

lemma sequencePart_format:
  "999 < n \<Longrightarrow> sequencePart (int n) = decimal n \<and> 4 \<le> length (sequencePart (int n))
      \<and> list_all is_digit (sequencePart (int n))"
  "n \<le> 999 \<Longrightarrow> length (sequencePart (int n)) = 3 \<and> list_all is_digit (sequencePart (int n))
      \<and> parseInt10 (sequencePart (int n)) = Some (int n)"
proof -
  assume n: "999 < n"
  then have "10 ^ 3 \<le> n" by simp
  then have l: "3 < length (decimal n)" by (rule length_decimal_ge)
  then have "sequencePart (int n) = decimal n"
    by (simp add: sequencePart_def String_int_def padStart_def)
  then show "sequencePart (int n) = decimal n \<and> 4 \<le> length (sequencePart (int n))
      \<and> list_all is_digit (sequencePart (int n))"
    using l by (simp add: digits_decimal)
next
  assume "n \<le> 999"
  then have n: "n < 1000" by simp
  have "n div 100 < 10" using n by simp
  moreover have "n div 10 mod 10 < 10" "n mod 10 < 10" by simp_all
  ultimately have "list_all is_digit (sequencePart (int n))"
    by (simp add: sequencePart_lt_1000 [OF n] is_digit_digit_char)
  then show "length (sequencePart (int n)) = 3 \<and> list_all is_digit (sequencePart (int n))
      \<and> parseInt10 (sequencePart (int n)) = Some (int n)"
    using n by (simp add: length_sequencePart parseInt10_sequencePart)
qed

section \<open>Uniqueness of registration numbers\<close>

text \<open>
  C10. No two stored records share a registration number: \<open>reg_no\<close> is \<open>UNIQUE\<close>, so when
  the allocator produces a number that is already in the table the insert fails, the
  request is answered with the internal error and the table is left as it was.
\<close>

theorem registration_numbers_unique:
  assumes "reachable st"
  shows "distinct (map reg_no (rows st)) \<and>
         (missingFields b = [] \<and> generateRegistrationNumber gf y st = Inr r \<and>
          r \<in> set (map reg_no (rows st)) \<longrightarrow>
            sent (post_register y gf rf b st) = generic_500 \<and>
            database (post_register y gf rf b st) = st)"
proof -
  have "sent (post_register y gf rf b st) = generic_500 \<and> database (post_register y gf rf b st) = st"
    if "missingFields b = []" "generateRegistrationNumber gf y st = Inr r" "r \<in> set (map reg_no (rows st))"
    using that
    by (auto simp add: post_register_def internal_error_def generic_500_def dbRun_def
        split: sum.splits option.splits prod.splits)
  then show ?thesis using reachable_distinct [OF assms] by blast
qed

theorem registration_numbers_unique_witness:
  "reachable after_1000 \<and> missingFields alice = [] \<and>
   generateRegistrationNumber None 2025 after_1000 = Inr ''COL20251000'' \<and>
   ''COL20251000'' \<in> set (map reg_no (rows after_1000)) \<and>
   distinct (map reg_no (rows after_1000)) \<and>
   sent (post_register 2025 None None alice after_1000) = generic_500 \<and>
   database (post_register 2025 None None alice after_1000) = after_1000"
proof -
  have g: "generateRegistrationNumber None 2025 after_1000 = Inr ''COL20251000''"
    using generate_stuck [OF first_1000(2)] by (simp add: sequencePart_1000')
  have m: "missingFields alice = []" by (rule valid_missingFields [OF valid_alice])
  show ?thesis
    using registration_numbers_unique [OF reachable_after_1000, of alice None 2025 "''COL20251000''" None]
      g m in_after_1000 reachable_after_1000 by simp
qed

lemma missingFields_filter: "missingFields b = filter (\<lambda>f. \<not> truthy (b f)) required_fields"
  by (simp add: missingFields_def required_fields_def)

section \<open>Validation\<close>

text \<open>
  C5. A registration request in which some of the five required fields are absent is
  answered with 400 and a message that lists the names of all missing fields, not only
  the first, and nothing is inserted. A field is missing for the handler when \<open>!field\<close>
  holds: when it is absent, or present with a falsy value such as the empty string. Every
  absent field is listed, and when the fields that are present are not falsy the list is
  exactly the absent ones.
\<close>

theorem missing_fields_rejected:
  assumes "\<exists>f\<in>set required_fields. b f = JUndefined"
  shows "post_register y gf rf b st =
           \<lparr>sent = \<lparr>status = 400,
                    body = Failure (''Missing fields: '' @
                             join (filter (\<lambda>f. \<not> truthy (b f)) required_fields) '', '')\<rparr>,
            database = st, console = [], calls = []\<rparr>
         \<and> (\<forall>f\<in>set required_fields. b f = JUndefined \<longrightarrow>
               f \<in> set (filter (\<lambda>f. \<not> truthy (b f)) required_fields))
         \<and> ((\<forall>f\<in>set required_fields. b f \<noteq> JUndefined \<longrightarrow> truthy (b f)) \<longrightarrow>
               filter (\<lambda>f. \<not> truthy (b f)) required_fields =
               filter (\<lambda>f. b f = JUndefined) required_fields)"
proof -
  from assms obtain f where f: "f \<in> set required_fields" "b f = JUndefined" by auto
  then have "f \<in> set (missingFields b)" by (simp add: missingFields_filter)
  then have "missingFields b \<noteq> []" by auto
  then have 1: "post_register y gf rf b st =
           \<lparr>sent = \<lparr>status = 400,
                    body = Failure (''Missing fields: '' @
                             join (filter (\<lambda>f. \<not> truthy (b f)) required_fields) '', '')\<rparr>,
            database = st, console = [], calls = []\<rparr>"
    by (simp add: post_register_def missingFields_filter [symmetric])
  have 2: "\<forall>f\<in>set required_fields. b f = JUndefined \<longrightarrow>
               f \<in> set (filter (\<lambda>f. \<not> truthy (b f)) required_fields)"
    by simp
  have 3: "filter (\<lambda>f. \<not> truthy (b f)) required_fields = filter (\<lambda>f. b f = JUndefined) required_fields"
    if "\<forall>f\<in>set required_fields. b f \<noteq> JUndefined \<longrightarrow> truthy (b f)"
    using that by (intro filter_cong) auto
  show ?thesis using 1 2 3 by blast
qed

theorem missing_fields_rejected_witness:
  "two_missing ''name'' = JUndefined \<and>
   sent (post_register 2025 None None two_missing empty_db) =
     \<lparr>status = 400, body = Failure ''Missing fields: name, division''\<rparr> \<and>
   database (post_register 2025 None None two_missing empty_db) = empty_db"
proof -
  have a: "\<exists>f\<in>set required_fields. two_missing f = JUndefined"
    by (simp add: required_fields_def two_missing_def)
  have f: "filter (\<lambda>f. \<not> truthy (two_missing f)) required_fields = [''name'', ''division'']"
    by (simp add: required_fields_def two_missing_def alice_def)
  have n: "two_missing ''name'' = JUndefined"
    by (simp add: two_missing_def)
  have "post_register 2025 None None two_missing empty_db =
      \<lparr>sent = \<lparr>status = 400, body = Failure (''Missing fields: '' @ join [''name'', ''division''] '', '')\<rparr>,
       database = empty_db, console = [], calls = []\<rparr>"
    using missing_fields_rejected [OF a, of 2025 None None empty_db] unfolding f by (rule conjunct1)
  then show ?thesis using n by simp
qed

text \<open>
  A name of one space passes the check, which is made before trimming, and is stored as
  the empty string.
\<close>

theorem whitespace_only_name_is_stored:
  "status (sent (post_register 2025 None None blank_name empty_db)) = 201 \<and>
   map name (rows (database (post_register 2025 None None blank_name empty_db))) = [[]]"
  by code_simp

lemma truthy_trim_filled: "truthy v \<Longrightarrow> js_trim f v = Inr t \<Longrightarrow> \<exists>s. v = JStr s \<and> s \<noteq> [] \<and> t = trim s"
  by (cases v) simp_all

lemma missingFields_Nil:
  "missingFields b = [] \<longleftrightarrow> truthy (b ''name'') \<and> truthy (b ''email'') \<and> truthy (b ''department'')
     \<and> truthy (b ''address'') \<and> truthy (b ''division'')"
  by (simp add: missingFields_def)

lemma insert_params_Inr:
  assumes "insert_params b = Inr (n, e, d, a, v)"
  shows "js_trim ''name'' (b ''name'') = Inr n \<and> js_trim ''email'' (b ''email'') = Inr e \<and>
         js_trim ''department'' (b ''department'') = Inr d \<and> js_trim ''address'' (b ''address'') = Inr a \<and>
         js_trim ''division'' (b ''division'') = Inr v"
  using assms by (simp add: insert_params_def split: sum.splits)

lemma status_201:
  assumes "status (sent (post_register y gf rf b st)) = 201"
  shows "missingFields b = [] \<and>
         (\<exists>r n e d a v. generateRegistrationNumber gf y st = Inr r \<and> insert_params b = Inr (n, e, d, a, v) \<and>
            database (post_register y gf rf b st) =
              \<lparr>rows = rows st @ [\<lparr>row_id = next_id st, reg_no = r, name = n, email = e,
                                   department = d, address = a, division = v\<rparr>],
               seq = next_id st\<rparr>)"
proof -
  have m: "missingFields b = []"
    using assms by (cases "missingFields b = []") (simp_all add: post_register_def)
  obtain r where r: "generateRegistrationNumber gf y st = Inr r"
    using assms m by (cases "generateRegistrationNumber gf y st") (simp_all add: post_register_def internal_error_def)
  obtain n e d a v where p: "insert_params b = Inr (n, e, d, a, v)"
    using assms m r by (cases "insert_params b") (auto simp add: post_register_def internal_error_def)
  obtain st' where s: "dbRun rf r n e d a v st = Inr st'"
    using assms m r p by (cases "dbRun rf r n e d a v st") (simp_all add: post_register_def internal_error_def)
  then have "st' = \<lparr>rows = rows st @ [\<lparr>row_id = next_id st, reg_no = r, name = n, email = e,
                                   department = d, address = a, division = v\<rparr>], seq = next_id st\<rparr>"
    by (auto simp add: dbRun_def split: option.splits if_splits)
  moreover have "database (post_register y gf rf b st) = st'"
    by (simp add: post_register_def m r p s)
  ultimately show ?thesis using m r p by simp
qed

text \<open>
  C6, as amended. Every record stored by the registration operation holds, in each of the
  five attributes, the submitted string with its leading and trailing white space
  removed, and the submitted string was not empty; a submission in which one of the five
  fields is absent or the empty string is rejected with 400 and nothing is stored.
\<close>

theorem stored_attributes_are_trimmed_submissions:
  "(status (sent (post_register y gf rf b st)) = 201 \<longrightarrow>
      (\<exists>r n e d a v.
         b ''name'' = JStr n \<and> n \<noteq> [] \<and> b ''email'' = JStr e \<and> e \<noteq> [] \<and>
         b ''department'' = JStr d \<and> d \<noteq> [] \<and> b ''address'' = JStr a \<and> a \<noteq> [] \<and>
         b ''division'' = JStr v \<and> v \<noteq> [] \<and>
         database (post_register y gf rf b st) =
           \<lparr>rows = rows st @ [\<lparr>row_id = next_id st, reg_no = r, name = trim n, email = trim e,
                                department = trim d, address = trim a, division = trim v\<rparr>],
            seq = next_id st\<rparr>))
   \<and> ((\<exists>f\<in>set required_fields. b f = JUndefined \<or> b f = JStr []) \<longrightarrow>
        status (sent (post_register y gf rf b st)) = 400 \<and>
        database (post_register y gf rf b st) = st)"
proof (intro conjI impI)
  assume "status (sent (post_register y gf rf b st)) = 201"
  from status_201 [OF this] obtain r n e d a v where
    m: "missingFields b = []" and p: "insert_params b = Inr (n, e, d, a, v)" and
    db: "database (post_register y gf rf b st) =
              \<lparr>rows = rows st @ [\<lparr>row_id = next_id st, reg_no = r, name = n, email = e,
                                   department = d, address = a, division = v\<rparr>],
               seq = next_id st\<rparr>"
    by blast
  note t = insert_params_Inr [OF p]
  note u = m [unfolded missingFields_Nil]
  obtain n' where n': "b ''name'' = JStr n'" "n' \<noteq> []" "n = trim n'"
    using truthy_trim_filled [of "b ''name''" "''name''" n] t u by blast
  obtain e' where e': "b ''email'' = JStr e'" "e' \<noteq> []" "e = trim e'"
    using truthy_trim_filled [of "b ''email''" "''email''" e] t u by blast
  obtain d' where d': "b ''department'' = JStr d'" "d' \<noteq> []" "d = trim d'"
    using truthy_trim_filled [of "b ''department''" "''department''" d] t u by blast
  obtain a' where a': "b ''address'' = JStr a'" "a' \<noteq> []" "a = trim a'"
    using truthy_trim_filled [of "b ''address''" "''address''" a] t u by blast
  obtain v' where v': "b ''division'' = JStr v'" "v' \<noteq> []" "v = trim v'"
    using truthy_trim_filled [of "b ''division''" "''division''" v] t u by blast
  show "\<exists>r n e d a v.
         b ''name'' = JStr n \<and> n \<noteq> [] \<and> b ''email'' = JStr e \<and> e \<noteq> [] \<and>
         b ''department'' = JStr d \<and> d \<noteq> [] \<and> b ''address'' = JStr a \<and> a \<noteq> [] \<and>
         b ''division'' = JStr v \<and> v \<noteq> [] \<and>
         database (post_register y gf rf b st) =
           \<lparr>rows = rows st @ [\<lparr>row_id = next_id st, reg_no = r, name = trim n, email = trim e,
                                department = trim d, address = trim a, division = trim v\<rparr>],
            seq = next_id st\<rparr>"
    using n' e' d' a' v' db by blast
next
  assume "\<exists>f\<in>set required_fields. b f = JUndefined \<or> b f = JStr []"
  then obtain f where "f \<in> set required_fields" "\<not> truthy (b f)" by auto
  then have "f \<in> set (missingFields b)" by (simp add: missingFields_filter)
  then have "missingFields b \<noteq> []" by auto
  then show "status (sent (post_register y gf rf b st)) = 400" "database (post_register y gf rf b st) = st"
    by (simp_all add: post_register_def)
qed

theorem stored_attributes_are_trimmed_submissions_witness:
  "status (sent (post_register 2025 None None blank_name empty_db)) = 201 \<and>
   rows (database (post_register 2025 None None blank_name empty_db)) =
     [\<lparr>row_id = 1, reg_no = ''COL2025001'', name = [], email = ''alice@example.org'',
       department = ''Physics'', address = ''1 Main St'', division = ''A''\<rparr>] \<and>
   no_email ''email'' = JStr [] \<and>
   status (sent (post_register 2025 None None no_email empty_db)) = 400 \<and>
   database (post_register 2025 None None no_email empty_db) = empty_db"
proof -
  have s: "status (sent (post_register 2025 None None blank_name empty_db)) = 201"
    by code_simp
  have r: "rows (database (post_register 2025 None None blank_name empty_db)) =
     [\<lparr>row_id = 1, reg_no = ''COL2025001'', name = [], email = ''alice@example.org'',
       department = ''Physics'', address = ''1 Main St'', division = ''A''\<rparr>]"
    by code_simp
  have e: "no_email ''email'' = JStr []" by (simp add: no_email_def)
  then have "\<exists>f\<in>set required_fields. no_email f = JUndefined \<or> no_email f = JStr []"
    by (auto simp add: required_fields_def)
  then have "status (sent (post_register 2025 None None no_email empty_db)) = 400 \<and>
        database (post_register 2025 None None no_email empty_db) = empty_db"
    using stored_attributes_are_trimmed_submissions [of 2025 None None no_email empty_db] by blast
  then show ?thesis using s r e by simp
qed

lemma js_trim_Inr: "js_trim f v = Inr t \<Longrightarrow> \<exists>s. v = JStr s"
  by (cases v) simp_all

lemma insert_params_not_string:
  assumes "\<exists>f\<in>set required_fields. \<forall>s. b f \<noteq> JStr s"
  shows "\<exists>err. insert_params b = Inl err"
proof (cases "insert_params b")
  case (Inl err)
  then show ?thesis by blast
next
  case (Inr t)
  obtain n e d a v where "t = (n, e, d, a, v)" by (cases t) auto
  then have "insert_params b = Inr (n, e, d, a, v)" using Inr by simp
  from insert_params_Inr [OF this] have "\<forall>f\<in>set required_fields. \<exists>s. b f = JStr s"
    by (auto simp add: required_fields_def dest: js_trim_Inr)
  then show ?thesis using assms by blast
qed

section \<open>Internal errors\<close>

text \<open>
  C8. When the read or the write of a registration request fails, or a \<open>.trim()\<close> call
  throws, the caller receives the generic 500 response, whose body is the same whatever
  the failure was; the details go to the console only. The table is unchanged and no
  driver call is made a second time: the calls are one \<open>dbGet\<close>, followed by one \<open>dbRun\<close>
  when the read went through.
\<close>

theorem registration_failure_is_generic_500:
  assumes "missingFields b = []"
    and "gf = Some m \<or> rf = Some m \<or> (\<exists>f\<in>set required_fields. \<forall>s. b f \<noteq> JStr s)"
  shows "sent (post_register y gf rf b st) = generic_500 \<and>
         database (post_register y gf rf b st) = st \<and>
         console (post_register y gf rf b st) \<noteq> [] \<and>
         (calls (post_register y gf rf b st) = [Get] \<or> calls (post_register y gf rf b st) = [Get, Run]) \<and>
         (gf = Some m \<longrightarrow> post_register y gf rf b st = internal_error (SqliteError m) st [Get])"
proof (cases "generateRegistrationNumber gf y st")
  case (Inl err)
  have "gf = Some m \<Longrightarrow> err = SqliteError m" using Inl by (simp add: generate_fault)
  then show ?thesis
    using Inl by (auto simp add: post_register_def assms(1) internal_error_def generic_500_def)
next
  case (Inr r)
  then have gf: "gf \<noteq> Some m" by (auto simp add: generate_fault)
  show ?thesis
  proof (cases "insert_params b")
    case (Inl err)
    then show ?thesis
      using Inr gf by (simp add: post_register_def assms(1) internal_error_def generic_500_def)
  next
    case params: (Inr t)
    obtain n e d a v where t: "t = (n, e, d, a, v)" by (cases t) auto
    have "rf = Some m" using assms(2) gf params insert_params_not_string [of b] by auto
    then have "dbRun rf r n e d a v st = Inl (SqliteError m)" by (simp add: dbRun_def)
    then show ?thesis
      using Inr gf params t by (simp add: post_register_def assms(1) internal_error_def generic_500_def)
  qed
qed

theorem registration_failure_is_generic_500_witness:
  "missingFields alice = [] \<and>
   post_register 2025 (Some ''SQLITE_IOERR: disk I/O error'') None alice empty_db =
     \<lparr>sent = \<lparr>status = 500, body = Failure ''Internal Server Error''\<rparr>, database = empty_db,
      console = [SqliteError ''SQLITE_IOERR: disk I/O error''], calls = [Get]\<rparr>"
proof -
  have m: "missingFields alice = []" by (rule valid_missingFields [OF valid_alice])
  show ?thesis
    using registration_failure_is_generic_500 [OF m, of "Some ''SQLITE_IOERR: disk I/O error''"
        "''SQLITE_IOERR: disk I/O error''" None 2025 empty_db] m
    by (simp add: internal_error_def)
qed

lemma get_students_eq:
  assumes "dept \<noteq> Some []"
  shows "get_students None dept st =
     \<lparr>sent = \<lparr>status = 200, body = Students (rev (sort_key row_id (filter (wanted dept) (rows st))))\<rparr>,
      database = st, console = [], calls = [All]\<rparr>"
proof (cases dept)
  case None
  then show ?thesis by (simp add: get_students_def dbAll_def wanted_def)
next
  case (Some d)
  then have "d \<noteq> []" using assms by simp
  moreover have "wanted (Some d) = (\<lambda>r. department r = d)"
    by (rule ext) (simp add: wanted_def)
  ultimately show ?thesis using Some by (simp add: get_students_def dbAll_def)
qed

lemma descending_rev_sort_key:
  "sorted_wrt (\<lambda>r r'. row_id r' \<le> row_id r) (rev (sort_key row_id xs))"
proof -
  have "sorted (map row_id (sort_key row_id xs))" by (rule sorted_sort_key)
  then show ?thesis by (simp add: sorted_wrt_rev sorted_map)
qed

section \<open>The listing\<close>

text \<open>
  C7. Without a department filter the listing returns all stored records ordered by
  descending id; with a department filter it returns exactly the records whose department
  is equal to the filter value, in the same order, and no record of another department.
  On a database the server can hold the ids grow with each insertion, so that the listing
  is the table, filtered, from the last record created to the first.
\<close>

theorem listing_newest_first:
  assumes "dept \<noteq> Some []"
  shows "status (sent (get_students None dept st)) = 200 \<and>
         mset (listed (get_students None dept st)) = mset (filter (wanted dept) (rows st)) \<and>
         sorted_wrt (\<lambda>r r'. row_id r' \<le> row_id r) (listed (get_students None dept st)) \<and>
         (reachable st \<longrightarrow> listed (get_students None dept st) = rev (filter (wanted dept) (rows st)))"
proof -
  have l: "listed (get_students None dept st) = rev (sort_key row_id (filter (wanted dept) (rows st)))"
    by (simp add: get_students_eq [OF assms] listed_def)
  have "sort_key row_id (filter (wanted dept) (rows st)) = filter (wanted dept) (rows st)" if "reachable st"
  proof -
    have "sorted (map row_id (rows st))"
      using reachable_ids_increasing [OF that] by (rule strict_sorted_imp_sorted)
    then have "sorted (map row_id (filter (wanted dept) (rows st)))" by (rule sorted_filter)
    then show ?thesis by (rule sort_key_id_if_sorted)
  qed
  moreover have "status (sent (get_students None dept st)) = 200"
    by (simp add: get_students_eq [OF assms])
  ultimately show ?thesis
    using descending_rev_sort_key [of "filter (wanted dept) (rows st)"]
    by (simp add: l)
qed

lemma reachable_two_students: "reachable two_students"
  unfolding two_students_def by (rule serve_reachable [OF reachable.initial])

lemma rows_two_students:
  "rows two_students =
     [\<lparr>row_id = 1, reg_no = ''COL2025001'', name = ''Alice'', email = ''alice@example.org'',
       department = ''Physics'', address = ''1 Main St'', division = ''A''\<rparr>,
      \<lparr>row_id = 2, reg_no = ''COL2025002'', name = ''Bob'', email = ''bob@example.org'',
       department = ''Mathematics'', address = ''2 High St'', division = ''B''\<rparr>]"
  by code_simp

theorem listing_newest_first_witness:
  "reachable two_students \<and>
   map reg_no (listed (get_students None None two_students)) = [''COL2025002'', ''COL2025001''] \<and>
   map reg_no (listed (get_students None (Some ''Physics'') two_students)) = [''COL2025001'']"
proof -
  have a: "listed (get_students None None two_students) = rev (filter (wanted None) (rows two_students))"
    using listing_newest_first [of None two_students] reachable_two_students by simp
  have b: "listed (get_students None (Some ''Physics'') two_students) =
      rev (filter (wanted (Some ''Physics'')) (rows two_students))"
    using listing_newest_first [of "Some ''Physics''" two_students] reachable_two_students by simp
  show ?thesis
    unfolding a b by (simp add: reachable_two_students rows_two_students wanted_def)
qed

text \<open>
  C9. A listing request whose \<open>department\<close> parameter is present but empty is answered
  exactly as a request without the parameter: all records, unfiltered (and not the
  records whose department is the empty string).
\<close>

theorem empty_department_is_no_filter:
  "get_students fault (Some []) st = get_students fault None st"
  by (simp add: get_students_def)

theorem empty_department_is_no_filter_witness:
  "map reg_no (listed (get_students None (Some []) two_students)) = [''COL2025002'', ''COL2025001'']"
proof -
  have "listed (get_students None None two_students) = rev (rows two_students)"
    by (simp add: get_students_eq listed_def wanted_def reachable_two_students
        sort_key_id_if_sorted strict_sorted_imp_sorted reachable_ids_increasing)
  then show ?thesis
    using empty_department_is_no_filter [of None two_students] by (simp add: rows_two_students)
qed

end
